theory Spec2Isabelle
  imports Main "HOL-Library.Sublist"
begin

section \<open>Data model of the file finder\<close>

text \<open>
  The program (\<^verbatim>\<open>src/main.cpp\<close>) walks a directory tree, hands every entry that is not a
  directory to one \<^verbatim>\<open>Processor\<close> per search substring, and collects the hits in a
  \<^verbatim>\<open>SearchResultContainer\<close> that is dumped to \<^verbatim>\<open>std::cout\<close>.

  A path is its text in generic format (separator \<^verbatim>\<open>/\<close>), compared as text. A
  \<^verbatim>\<open>std::thread::id\<close> is modelled by its printed form: the standard gives equal ids the
  same text and different ids different texts.
\<close>

type_synonym fs_path = string
type_synonym thread_id = string

record directory_entry =
  path :: fs_path
  is_directory :: bool

record SearchResult =
  entry :: directory_entry
  substring :: string
  id :: thread_id

type_synonym ResultValue = "string \<times> thread_id"

text \<open>
  \<^verbatim>\<open>std::unordered_map<fs::path, std::vector<ResultValue>> store\<close>: an association list with
  one pair per key. The iteration order of the C++ container is unspecified; the model lists
  the keys in the order of their first insertion.
\<close>

type_synonym result_store = "(fs_path \<times> ResultValue list) list"

record SearchResultContainer =
  store :: result_store
  container_should_continue :: bool

record Processor =
  target :: string
  queue :: "directory_entry list"
  processor_should_continue :: bool

subsection \<open>Logger\<close>

datatype Level = Silent | Error | Warning | Info | Debug

fun level_value :: "Level \<Rightarrow> nat" where
  "level_value Silent = 0"
| "level_value Error = 100"
| "level_value Warning = 200"
| "level_value Info = 300"
| "level_value Debug = 400"

fun get_prefix :: "Level \<Rightarrow> string" where
  "get_prefix Silent = ''[SILENT]''"
| "get_prefix Error = ''[ERROR]''"
| "get_prefix Warning = ''[WARNING]''"
| "get_prefix Info = ''[INFO]''"
| "get_prefix Debug = ''[DEBUG]''"

text \<open>The global \<^verbatim>\<open>Logger logger{Logger::Level::Info}\<close>.\<close>

definition logging_level :: Level where
  "logging_level = Info"

text \<open>
  \<^verbatim>\<open>Logger::log\<close>: the text it writes to \<^verbatim>\<open>std::cout\<close> when called by thread \<open>tid\<close>
  (nothing when the level is above the logger's).
\<close>

definition Logger_log :: "string \<Rightarrow> Level \<Rightarrow> bool \<Rightarrow> thread_id \<Rightarrow> string" where
  "Logger_log message level newline tid =
     (if level_value level \<le> level_value logging_level
      then get_prefix level @ '' '' @ message @ '' ('' @ tid @ '')''
             @ (if newline then [CHR 0x0A] else [])
      else [])"

definition Logger_debug :: "string \<Rightarrow> thread_id \<Rightarrow> string" where
  "Logger_debug message tid = Logger_log message Debug True tid"

definition Logger_info :: "string \<Rightarrow> thread_id \<Rightarrow> string" where
  "Logger_info message tid = Logger_log message Info True tid"

subsection \<open>Strings and paths\<close>

text \<open>
  \<^verbatim>\<open>std::string::find(str)\<close> from position 0: the lowest position at which \<open>str\<close>
  occurs, \<open>None\<close> for \<^verbatim>\<open>npos\<close>. The empty string is found at position 0 of every string.
\<close>

fun string_find :: "string \<Rightarrow> string \<Rightarrow> nat option" where
  "string_find [] str = (if str = [] then Some 0 else None)"
| "string_find (c # cs) str =
     (if prefix str (c # cs) then Some 0
      else map_option Suc (string_find cs str))"

text \<open>
  \<^verbatim>\<open>path::filename()\<close> in generic format: the text after the last separator (empty when
  the path ends in a separator).
\<close>

definition filename :: "fs_path \<Rightarrow> string" where
  "filename p = rev (takeWhile (\<lambda>c. c \<noteq> CHR ''/'') (rev p))"

section \<open>SearchResultContainer\<close>

text \<open>
  \<^verbatim>\<open>store[key].emplace_back(value)\<close>: \<^verbatim>\<open>operator[]\<close> inserts an empty vector under a
  new key, then the value is appended to the key's vector.
\<close>

fun store_emplace :: "fs_path \<Rightarrow> ResultValue \<Rightarrow> result_store \<Rightarrow> result_store" where
  "store_emplace k v [] = [(k, [v])]"
| "store_emplace k v ((k', vs) # st) =
     (if k = k' then (k', vs @ [v]) # st else (k', vs) # store_emplace k v st)"

text \<open>
  \<^verbatim>\<open>SearchResultContainer::push\<close>. Its log call is at debug level and writes nothing
  (lemma \<open>Logger_debug_silent\<close>).
\<close>

definition SearchResultContainer_push ::
  "SearchResult \<Rightarrow> SearchResultContainer \<Rightarrow> SearchResultContainer" where
  "SearchResultContainer_push result c =
     c\<lparr>store := store_emplace (path (entry result)) (substring result, id result) (store c)\<rparr>"

text \<open>
  \<^verbatim>\<open>operator<<\<close> of a path writes it with \<^verbatim>\<open>std::quoted\<close>: between double quotes, with a
  backslash before every double quote and backslash.
\<close>

definition quoted :: "string \<Rightarrow> string" where
  "quoted s =
     CHR 0x22 # concat (map (\<lambda>c. if c = CHR 0x22 \<or> c = CHR 0x5C then [CHR 0x5C, c] else [c]) s)
       @ [CHR 0x22]"

definition format_value :: "ResultValue \<Rightarrow> string" where
  "format_value result =
     [CHR 0x09, CHR 0x22] @ fst result @ [CHR 0x22, CHR 0x09] @ ''('' @ snd result @ '')''
       @ [CHR 0x0A]"

text \<open>The text the loops of \<^verbatim>\<open>dump\<close> build in \<^verbatim>\<open>ss\<close>.\<close>

fun format_store :: "result_store \<Rightarrow> string" where
  "format_store [] = []"
| "format_store ((key, values) # st) =
     quoted key @ [CHR 0x0A] @ concat (map format_value values) @ format_store st"

text \<open>
  \<^verbatim>\<open>SearchResultContainer::dump\<close>, called by thread \<open>tid\<close>: the container afterwards and
  the text written to \<^verbatim>\<open>std::cout\<close> (the logger's line, then the snapshot).
\<close>

definition SearchResultContainer_dump ::
  "thread_id \<Rightarrow> SearchResultContainer \<Rightarrow> SearchResultContainer \<times> string" where
  "SearchResultContainer_dump tid c =
     (c\<lparr>store := []\<rparr>, Logger_info ''dump start'' tid @ format_store (store c))"

text \<open>
  One pass of the loop of \<^verbatim>\<open>periodic_dump\<close> that found \<^verbatim>\<open>should_continue\<close> true. Clock
  readings are in nanoseconds, the period \<open>ms\<close> in milliseconds; \<open>finish\<close> is the reading at
  the top of the pass and \<open>restart\<close> the one taken after the dump. The result is the new
  \<^verbatim>\<open>start\<close>, the container and the text written.
\<close>

definition periodic_dump_pass ::
  "thread_id \<Rightarrow> int \<Rightarrow> int \<Rightarrow> int \<Rightarrow> int \<Rightarrow> SearchResultContainer
     \<Rightarrow> int \<times> SearchResultContainer \<times> string" where
  "periodic_dump_pass tid ms start finish restart c =
     (if finish - start > ms * 1000000
      then (case SearchResultContainer_dump tid c of (c', out) \<Rightarrow> (restart, c', out))
      else (start, c, []))"

section \<open>Processor\<close>

definition Processor_push :: "directory_entry \<Rightarrow> Processor \<Rightarrow> Processor" where
  "Processor_push e p = p\<lparr>queue := queue p @ [e]\<rparr>"

definition queue_size :: "Processor \<Rightarrow> nat" where
  "queue_size p = length (queue p)"

text \<open>The body of the loop of \<^verbatim>\<open>Processor::process\<close> for the entry at the front.\<close>

definition process_entry ::
  "string \<Rightarrow> thread_id \<Rightarrow> directory_entry \<Rightarrow> SearchResultContainer \<Rightarrow> SearchResultContainer" where
  "process_entry t tid e c =
     (if string_find (filename (path e)) t \<noteq> None
      then SearchResultContainer_push \<lparr>entry = e, substring = t, id = tid\<rparr> c
      else c)"

text \<open>
  \<^verbatim>\<open>while (queue.size() > 0) { ... queue.pop(); }\<close>: the queue and the container when the
  loop ends. The queue mutex is held for the whole loop, so the queue does not grow meanwhile.
\<close>

fun process_loop ::
  "string \<Rightarrow> thread_id \<Rightarrow> directory_entry list \<Rightarrow> SearchResultContainer
     \<Rightarrow> directory_entry list \<times> SearchResultContainer" where
  "process_loop t tid [] c = ([], c)"
| "process_loop t tid (e # q) c = process_loop t tid q (process_entry t tid e c)"

text \<open>The calls of \<^verbatim>\<open>container->push\<close> the loop makes, in the order it makes them.\<close>

fun process_pushes :: "string \<Rightarrow> thread_id \<Rightarrow> directory_entry list \<Rightarrow> SearchResult list" where
  "process_pushes t tid [] = []"
| "process_pushes t tid (e # q) =
     (if string_find (filename (path e)) t \<noteq> None
      then \<lparr>entry = e, substring = t, id = tid\<rparr> # process_pushes t tid q
      else process_pushes t tid q)"

text \<open>\<^verbatim>\<open>Processor::process\<close> run by thread \<open>tid\<close>.\<close>

definition Processor_process ::
  "thread_id \<Rightarrow> Processor \<Rightarrow> SearchResultContainer \<Rightarrow> Processor \<times> SearchResultContainer" where
  "Processor_process tid p c =
     (case process_loop (target p) tid (queue p) c of (q', c') \<Rightarrow> (p\<lparr>queue := q'\<rparr>, c'))"

section \<open>PathFinder\<close>

text \<open>
  What \<^verbatim>\<open>fs::recursive_directory_iterator\<close> delivers: the entries in its order, and
  \<open>IterError\<close> where constructing or advancing it throws. (With
  \<^verbatim>\<open>skip_permission_denied\<close> a directory that may not be read is skipped, not an error.)
\<close>

datatype iter_item = Entry directory_entry | IterError

text \<open>
  How the task running \<^verbatim>\<open>list_paths\<close> ends: with its return value, or with the exception
  the iterator threw.
\<close>

datatype walk_outcome = Returned int | Thrown

text \<open>The inner loop \<^verbatim>\<open>for (Processor &proc : *processors)\<close> for one entry.\<close>

fun push_all :: "directory_entry \<Rightarrow> Processor list \<Rightarrow> Processor list" where
  "push_all e [] = []"
| "push_all e (proc # procs) =
     (if is_directory e = False then Processor_push e proc else proc) # push_all e procs"

text \<open>
  The outer loop. \<open>reads k\<close> is the value of \<^verbatim>\<open>should_continue\<close> that the check before
  the \<open>k\<close>-th entry finds (another thread may have cleared the flag).
\<close>

fun list_paths_loop ::
  "(nat \<Rightarrow> bool) \<Rightarrow> nat \<Rightarrow> iter_item list \<Rightarrow> Processor list
     \<Rightarrow> walk_outcome \<times> Processor list" where
  "list_paths_loop reads k [] procs = (Returned 0, procs)"
| "list_paths_loop reads k (IterError # items) procs = (Thrown, procs)"
| "list_paths_loop reads k (Entry e # items) procs =
     (if \<not> reads k then (Returned 1, procs)
      else list_paths_loop reads (Suc k) items (push_all e procs))"

definition PathFinder_list_paths ::
  "(nat \<Rightarrow> bool) \<Rightarrow> iter_item list \<Rightarrow> Processor list \<Rightarrow> walk_outcome \<times> Processor list" where
  "PathFinder_list_paths reads items procs = list_paths_loop reads 0 items procs"

text \<open>
  The calls \<^verbatim>\<open>proc.push(entry)\<close> of the two loops, in the order they are made, each with
  the index of its processor in the vector.
\<close>

fun push_all_calls :: "directory_entry \<Rightarrow> nat \<Rightarrow> nat \<Rightarrow> (nat \<times> directory_entry) list" where
  "push_all_calls e i 0 = []"
| "push_all_calls e i (Suc n) =
     (if is_directory e = False then [(i, e)] else []) @ push_all_calls e (Suc i) n"

fun list_paths_calls ::
  "(nat \<Rightarrow> bool) \<Rightarrow> nat \<Rightarrow> iter_item list \<Rightarrow> nat \<Rightarrow> (nat \<times> directory_entry) list" where
  "list_paths_calls reads k [] n = []"
| "list_paths_calls reads k (IterError # items) n = []"
| "list_paths_calls reads k (Entry e # items) n =
     (if \<not> reads k then []
      else push_all_calls e 0 n @ list_paths_calls reads (Suc k) items n)"

definition apply_push :: "Processor list \<Rightarrow> nat \<times> directory_entry \<Rightarrow> Processor list" where
  "apply_push procs call = procs[fst call := Processor_push (snd call) (procs ! fst call)]"

section \<open>The store mutex\<close>

text \<open>
  \<^verbatim>\<open>push\<close> and \<^verbatim>\<open>dump\<close> statement by statement, to see what happens while
  \<^verbatim>\<open>store_mutex\<close> is held. A \<^verbatim>\<open>std::scoped_lock\<close> acquires the mutex where it is declared
  (the first statement of both functions) and releases it when the function's scope ends,
  after the last statement.
\<close>

datatype container_op =
    Lock | LogInfo string | LogDebug string | Format | Clear | Write | Flush
  | Emplace SearchResult | Unlock

record guarded_container =
  guarded :: SearchResultContainer
  store_mutex :: "thread_id option"
  out :: string

text \<open>
  One statement run by thread \<open>tid\<close>, on the local \<^verbatim>\<open>ss\<close> of its call and the shared
  state; \<open>None\<close> when the thread has to wait for the mutex.
\<close>

fun op_step ::
  "thread_id \<Rightarrow> container_op \<Rightarrow> string \<times> guarded_container
     \<Rightarrow> (string \<times> guarded_container) option" where
  "op_step tid Lock (ss, g) =
     (if store_mutex g = None then Some (ss, g\<lparr>store_mutex := Some tid\<rparr>) else None)"
| "op_step tid (LogInfo m) (ss, g) = Some (ss, g\<lparr>out := out g @ Logger_info m tid\<rparr>)"
| "op_step tid (LogDebug m) (ss, g) = Some (ss, g\<lparr>out := out g @ Logger_debug m tid\<rparr>)"
| "op_step tid Format (ss, g) = Some (ss @ format_store (store (guarded g)), g)"
| "op_step tid Clear (ss, g) = Some (ss, g\<lparr>guarded := (guarded g)\<lparr>store := []\<rparr>\<rparr>)"
| "op_step tid Write (ss, g) = Some (ss, g\<lparr>out := out g @ ss\<rparr>)"
| "op_step tid Flush (ss, g) = Some (ss, g)"
| "op_step tid (Emplace r) (ss, g) =
     Some (ss, g\<lparr>guarded := SearchResultContainer_push r (guarded g)\<rparr>)"
| "op_step tid Unlock (ss, g) = Some (ss, g\<lparr>store_mutex := None\<rparr>)"

text \<open>The statements of \<^verbatim>\<open>SearchResultContainer::dump\<close> (lines 99 to 111).\<close>

definition dump_ops :: "container_op list" where
  "dump_ops = [Lock, LogInfo ''dump start'', Format, Clear, Write, Flush, Unlock]"

text \<open>The statements of \<^verbatim>\<open>SearchResultContainer::push\<close> (lines 93 to 96).\<close>

definition push_ops :: "SearchResult \<Rightarrow> container_op list" where
  "push_ops r =
     [Lock, LogDebug (''push '' @ [CHR 0x22] @ path (entry r) @ [CHR 0x22]), Emplace r, Unlock]"

text \<open>A thread running statements one after the other, with no other thread in between.\<close>

fun run_ops ::
  "thread_id \<Rightarrow> container_op list \<Rightarrow> string \<times> guarded_container
     \<Rightarrow> (string \<times> guarded_container) option" where
  "run_ops tid [] st = Some st"
| "run_ops tid (x # xs) st =
     (case op_step tid x st of None \<Rightarrow> None | Some st' \<Rightarrow> run_ops tid xs st')"

text \<open>The owner of the mutex after each statement of such a run.\<close>

fun mutex_trace ::
  "thread_id \<Rightarrow> container_op list \<Rightarrow> string \<times> guarded_container \<Rightarrow> thread_id option list" where
  "mutex_trace tid [] st = []"
| "mutex_trace tid (x # xs) st =
     (case op_step tid x st of
        None \<Rightarrow> []
      | Some st' \<Rightarrow> store_mutex (snd st') # mutex_trace tid xs st')"

section \<open>The coordinator \<^verbatim>\<open>do_main\<close> and its threads\<close>

text \<open>
  \<^verbatim>\<open>do_main\<close> creates the dump thread, one thread per processor and the search thread,
  waits until all have set their flag, creates the thread reading commands, waits for the
  search and for the queues, dumps, clears the flags and joins. The threads are modelled by
  a state each and a function that runs one thread's next step; a schedule is the list of the
  steps taken, in order. A thread that has to wait (a join on a running thread, a
  \<^verbatim>\<open>getline\<close> with no input) stays where it is. One step is what the thread does under one
  mutex, or one read or write of the atomic flags; the walker's pushes for one entry are one
  step. The model starts when all threads of lines 308 to 341 exist; a processor is addressed
  by its index in the vector, which is taken to stay in place from then on.
\<close>

record SearchSettings =
  root_dir :: fs_path
  follow_links :: bool
  substrings :: "string list"

definition EXIT_SUCCESS :: int where
  "EXIT_SUCCESS = 0"

definition EXIT_FAILURE :: int where
  "EXIT_FAILURE = 1"

text \<open>The period \<^verbatim>\<open>dump_period\<close> of \<^verbatim>\<open>do_main\<close>, in milliseconds.\<close>

definition dump_period :: int where
  "dump_period = 9500"

datatype unit_name = WalkerU | WorkerU nat | FlusherU | ReaderU | MainU

text \<open>
  The search thread runs \<^verbatim>\<open>list_paths\<close> as a packaged task: before the flag is set, in
  the loop with the items the iterator still has, or finished with the task's outcome (an
  exception of the iterator is stored in the future and the thread ends).
\<close>

datatype walker_pc = W_start "iter_item list" | W_loop "iter_item list" | W_done walk_outcome

text \<open>A processor thread runs \<^verbatim>\<open>Processor::run\<close>.\<close>

datatype worker_pc = P_start | P_loop | P_done

text \<open>The dump thread runs \<^verbatim>\<open>periodic_dump\<close>; in the loop it keeps its \<^verbatim>\<open>start\<close>.\<close>

datatype flusher_pc = F_start | F_loop int | F_done

text \<open>
  The thread reading commands: not created yet, at the test of its loop, in
  \<^verbatim>\<open>std::getline\<close>, or finished.
\<close>

datatype reader_pc = R_none | R_test | R_getline | R_done

text \<open>The main thread, from line 355 on.\<close>

datatype main_pc =
    M_barrier | M_wait_search | M_wait_drain | M_final_dump | M_stop | M_join_search
  | M_join_processors nat | M_join_dump | M_detach_ui | M_returned int

record pipeline =
  processors :: "Processor list"
  container :: SearchResultContainer
  path_finder_should_continue :: bool
  should_continue :: bool
  search_thread :: walker_pc
  processor_threads :: "worker_pc list"
  dump_thread :: flusher_pc
  ui_thread :: reader_pc
  main_thread :: main_pc
  cout :: string
  cin :: "string list"
  cin_eof :: bool
  clock :: int
  thread_ids :: "unit_name \<Rightarrow> thread_id"

text \<open>
  The state when all threads exist: \<open>items\<close> is what the iterator will deliver for
  \<^verbatim>\<open>settings.root_dir\<close>, \<open>lines\<close> the lines that will be typed, \<open>eof\<close> whether the input
  ends after them.
\<close>

definition do_main_start ::
  "SearchSettings \<Rightarrow> iter_item list \<Rightarrow> string list \<Rightarrow> bool \<Rightarrow> int
     \<Rightarrow> (unit_name \<Rightarrow> thread_id) \<Rightarrow> pipeline" where
  "do_main_start settings items lines eof now ids =
     \<lparr>processors =
        map (\<lambda>s. \<lparr>target = s, queue = [], processor_should_continue = False\<rparr>)
          (substrings settings),
      container = \<lparr>store = [], container_should_continue = False\<rparr>,
      path_finder_should_continue = False,
      should_continue = True,
      search_thread = W_start items,
      processor_threads = map (\<lambda>s. P_start) (substrings settings),
      dump_thread = F_start,
      ui_thread = R_none,
      main_thread = M_barrier,
      cout = [],
      cin = lines,
      cin_eof = eof,
      clock = now,
      thread_ids = ids\<rparr>"

text \<open>The lambda \<^verbatim>\<open>stop_func\<close>, called by thread \<open>u\<close>.\<close>

definition stop_func :: "unit_name \<Rightarrow> pipeline \<Rightarrow> pipeline" where
  "stop_func u s =
     s\<lparr>cout := cout s @ Logger_info ''ending'' (thread_ids s u),
       should_continue := False,
       path_finder_should_continue := False,
       processors := map (\<lambda>p. p\<lparr>processor_should_continue := False\<rparr>) (processors s),
       container := (container s)\<lparr>container_should_continue := False\<rparr>\<rparr>"

text \<open>\<^verbatim>\<open>container->dump()\<close> called by thread \<open>u\<close>.\<close>

definition dump_by :: "unit_name \<Rightarrow> pipeline \<Rightarrow> pipeline" where
  "dump_by u s =
     (case SearchResultContainer_dump (thread_ids s u) (container s) of
        (c', text) \<Rightarrow> s\<lparr>container := c', cout := cout s @ text\<rparr>)"

text \<open>One step of the search thread: the flag is set, or one pass of the loop of \<^verbatim>\<open>list_paths\<close>.\<close>

definition search_step :: "pipeline \<Rightarrow> pipeline" where
  "search_step s =
     (case search_thread s of
        W_start items \<Rightarrow> s\<lparr>path_finder_should_continue := True, search_thread := W_loop items\<rparr>
      | W_loop [] \<Rightarrow> s\<lparr>search_thread := W_done (Returned 0)\<rparr>
      | W_loop (IterError # items) \<Rightarrow> s\<lparr>search_thread := W_done Thrown\<rparr>
      | W_loop (Entry e # items) \<Rightarrow>
          (if \<not> path_finder_should_continue s then s\<lparr>search_thread := W_done (Returned 1)\<rparr>
           else s\<lparr>processors := push_all e (processors s), search_thread := W_loop items\<rparr>)
      | W_done r \<Rightarrow> s)"

text \<open>One step of processor thread \<open>i\<close>: the flag is set, or one pass of the loop of \<^verbatim>\<open>run\<close>.\<close>

definition processor_step :: "nat \<Rightarrow> pipeline \<Rightarrow> pipeline" where
  "processor_step i s =
     (if i < length (processor_threads s) \<and> i < length (processors s) then
        (case processor_threads s ! i of
           P_start \<Rightarrow>
             s\<lparr>processors := (processors s)[i := (processors s ! i)\<lparr>processor_should_continue := True\<rparr>],
               processor_threads := (processor_threads s)[i := P_loop]\<rparr>
         | P_loop \<Rightarrow>
             (if processor_should_continue (processors s ! i) then
                (case Processor_process (thread_ids s (WorkerU i)) (processors s ! i) (container s) of
                   (p', c') \<Rightarrow> s\<lparr>processors := (processors s)[i := p'], container := c'\<rparr>)
              else s\<lparr>processor_threads := (processor_threads s)[i := P_done]\<rparr>)
         | P_done \<Rightarrow> s)
      else s)"

text \<open>One step of the dump thread: the flag is set, or one pass of the loop of \<^verbatim>\<open>periodic_dump\<close>.\<close>

definition dump_step :: "pipeline \<Rightarrow> pipeline" where
  "dump_step s =
     (case dump_thread s of
        F_start \<Rightarrow>
          s\<lparr>container := (container s)\<lparr>container_should_continue := True\<rparr>,
            dump_thread := F_loop (clock s)\<rparr>
      | F_loop start \<Rightarrow>
          (if container_should_continue (container s) then
             (case periodic_dump_pass (thread_ids s FlusherU) dump_period start (clock s) (clock s)
                     (container s) of
                (start', c', text) \<Rightarrow>
                  s\<lparr>container := c', cout := cout s @ text, dump_thread := F_loop start'\<rparr>)
           else s\<lparr>dump_thread := F_done\<rparr>)
      | F_done \<Rightarrow> s)"

text \<open>What the command reader does with one line (lines 371 to 378).\<close>

definition run_command :: "string \<Rightarrow> pipeline \<Rightarrow> pipeline" where
  "run_command command s =
     (if command = ''end'' \<or> command = ''Exit'' then stop_func ReaderU s
      else if command = ''dump'' \<or> command = ''Dump'' then dump_by ReaderU s
      else s\<lparr>cout := cout s @ ''unknown command '' @ [CHR 0x22] @ command @ [CHR 0x22, CHR 0x0A]\<rparr>)"

text \<open>
  One step of the command reader: the test of its loop, or a \<^verbatim>\<open>getline\<close> and the command.
  With no line typed and the input still open, \<^verbatim>\<open>getline\<close> does not return; at the end of
  the input it returns at once with an empty command.
\<close>

definition ui_step :: "pipeline \<Rightarrow> pipeline" where
  "ui_step s =
     (case ui_thread s of
        R_none \<Rightarrow> s
      | R_test \<Rightarrow> (if should_continue s then s\<lparr>ui_thread := R_getline\<rparr> else s\<lparr>ui_thread := R_done\<rparr>)
      | R_getline \<Rightarrow>
          (case cin s of
             [] \<Rightarrow> (if cin_eof s then run_command [] (s\<lparr>ui_thread := R_test\<rparr>) else s)
           | command # rest \<Rightarrow> run_command command (s\<lparr>cin := rest, ui_thread := R_test\<rparr>))
      | R_done \<Rightarrow> s)"

text \<open>One step of the main thread (lines 355 to 409).\<close>

definition main_step :: "pipeline \<Rightarrow> pipeline" where
  "main_step s =
     (case main_thread s of
        M_barrier \<Rightarrow>
          (if should_continue s \<and> path_finder_should_continue s
              \<and> list_all processor_should_continue (processors s)
              \<and> container_should_continue (container s)
           then s\<lparr>ui_thread := R_test, main_thread := M_wait_search\<rparr> else s)
      | M_wait_search \<Rightarrow>
          (if should_continue s \<and> (case search_thread s of W_done r \<Rightarrow> False | _ \<Rightarrow> True)
           then s else s\<lparr>main_thread := M_wait_drain\<rparr>)
      | M_wait_drain \<Rightarrow>
          (if should_continue s \<and> sum_list (map queue_size (processors s)) > 0
           then s else s\<lparr>main_thread := M_final_dump\<rparr>)
      | M_final_dump \<Rightarrow> (dump_by MainU s)\<lparr>main_thread := M_stop\<rparr>
      | M_stop \<Rightarrow> (stop_func MainU s)\<lparr>main_thread := M_join_search\<rparr>
      | M_join_search \<Rightarrow>
          (case search_thread s of
             W_done r \<Rightarrow> s\<lparr>main_thread := M_join_processors 0\<rparr>
           | _ \<Rightarrow> s)
      | M_join_processors i \<Rightarrow>
          (if i < length (processor_threads s) then
             (if processor_threads s ! i = P_done then s\<lparr>main_thread := M_join_processors (Suc i)\<rparr>
              else s)
           else s\<lparr>main_thread := M_join_dump\<rparr>)
      | M_join_dump \<Rightarrow> (if dump_thread s = F_done then s\<lparr>main_thread := M_detach_ui\<rparr> else s)
      | M_detach_ui \<Rightarrow> s\<lparr>main_thread := M_returned EXIT_SUCCESS\<rparr>
      | M_returned r \<Rightarrow> s)"

text \<open>A schedule: which thread takes its next step, or the clock advancing by some nanoseconds.\<close>

datatype event = Run unit_name | Tick nat

fun step :: "event \<Rightarrow> pipeline \<Rightarrow> pipeline" where
  "step (Tick d) s = s\<lparr>clock := clock s + int d\<rparr>"
| "step (Run WalkerU) s = search_step s"
| "step (Run (WorkerU i)) s = processor_step i s"
| "step (Run FlusherU) s = dump_step s"
| "step (Run ReaderU) s = ui_step s"
| "step (Run MainU) s = main_step s"

fun exec :: "event list \<Rightarrow> pipeline \<Rightarrow> pipeline" where
  "exec [] s = s"
| "exec (ev # evs) s = exec evs (step ev s)"

text \<open>The value \<^verbatim>\<open>do_main\<close> has returned, if it has.\<close>

definition do_main_result :: "pipeline \<Rightarrow> int option" where
  "do_main_result s = (case main_thread s of M_returned r \<Rightarrow> Some r | _ \<Rightarrow> None)"

text \<open>Which threads have ended.\<close>

definition walker_terminated :: "pipeline \<Rightarrow> bool" where
  "walker_terminated s = (case search_thread s of W_done r \<Rightarrow> True | _ \<Rightarrow> False)"

definition processors_terminated :: "pipeline \<Rightarrow> bool" where
  "processors_terminated s = list_all (\<lambda>pc. pc = P_done) (processor_threads s)"

definition flusher_terminated :: "pipeline \<Rightarrow> bool" where
  "flusher_terminated s = (dump_thread s = F_done)"

definition reader_terminated :: "pipeline \<Rightarrow> bool" where
  "reader_terminated s = (ui_thread s = R_done)"

text \<open>
  What the joins of lines 396 to 400 have established when the main thread is at a given
  point of the shutdown.
\<close>

fun joined :: "main_pc \<Rightarrow> pipeline \<Rightarrow> bool" where
  "joined (M_join_processors i) s =
     (walker_terminated s \<and> list_all (\<lambda>pc. pc = P_done) (take i (processor_threads s)))"
| "joined M_join_dump s = (walker_terminated s \<and> processors_terminated s)"
| "joined M_detach_ui s =
     (walker_terminated s \<and> processors_terminated s \<and> flusher_terminated s)"
| "joined (M_returned r) s =
     (walker_terminated s \<and> processors_terminated s \<and> flusher_terminated s)"
| "joined pc s = True"

section \<open>Example runs\<close>

text \<open>
  A search for \<^verbatim>\<open>a\<close> under \<^verbatim>\<open>/r\<close>, the thread ids, two files, and two schedules.
  In \<open>completing_schedule\<close> every thread starts, the walker handles one entry and ends
  (it returns, or the iterator throws at the second item), the processor drains its queue,
  and the main thread dumps, clears the flags and joins; nothing is typed.
  In \<open>stopping_schedule\<close> the command reader gets a line after the walker has handled its
  first entry, and the walker then finds its flag cleared.
\<close>

definition example_settings :: SearchSettings where
  "example_settings = \<lparr>root_dir = ''/r'', follow_links = False, substrings = [''a'']\<rparr>"

definition example_ids :: "unit_name \<Rightarrow> thread_id" where
  "example_ids u =
     (case u of WalkerU \<Rightarrow> ''t1'' | WorkerU i \<Rightarrow> ''t2'' | FlusherU \<Rightarrow> ''t3''
      | ReaderU \<Rightarrow> ''t4'' | MainU \<Rightarrow> ''t0'')"

definition file_a :: directory_entry where
  "file_a = \<lparr>path = ''/r/a.txt'', is_directory = False\<rparr>"

definition file_b :: directory_entry where
  "file_b = \<lparr>path = ''/r/ab.txt'', is_directory = False\<rparr>"

definition completing_schedule :: "event list" where
  "completing_schedule =
     [Run FlusherU, Run (WorkerU 0), Run WalkerU, Run MainU, Run ReaderU,
      Run WalkerU, Run WalkerU, Run MainU, Run (WorkerU 0), Run MainU,
      Run MainU, Run MainU, Run MainU, Run (WorkerU 0), Run MainU, Run MainU,
      Run FlusherU, Run MainU, Run MainU]"

definition stopping_schedule :: "event list" where
  "stopping_schedule =
     [Run FlusherU, Run (WorkerU 0), Run WalkerU, Run MainU, Run ReaderU,
      Run WalkerU, Run ReaderU, Run WalkerU, Run MainU, Run MainU,
      Run MainU, Run MainU, Run MainU, Run (WorkerU 0), Run MainU, Run MainU,
      Run FlusherU, Run MainU, Run MainU]"

text \<open>A container holding one hit, its mutex free.\<close>

definition example_guarded :: guarded_container where
  "example_guarded =
     \<lparr>guarded = \<lparr>store = [(''/r/a.txt'', [(''a'', ''t2'')])], container_should_continue = True\<rparr>,
      store_mutex = None, out = []\<rparr>"

section \<open>Auxiliary notions for the statements\<close>

text \<open>
  The pairs that the calls \<open>rs\<close> of \<^verbatim>\<open>SearchResultContainer::push\<close> record for the
  path \<open>p\<close>, in the order of the calls.
\<close>

definition values_for :: "fs_path \<Rightarrow> SearchResult list \<Rightarrow> ResultValue list" where
  "values_for p rs = map (\<lambda>r. (substring r, id r)) (filter (\<lambda>r. path (entry r) = p) rs)"

text \<open>The entries of a list that are not directories, in the list's order.\<close>

definition not_dirs :: "directory_entry list \<Rightarrow> directory_entry list" where
  "not_dirs es = filter (\<lambda>e. \<not> is_directory e) es"

text \<open>Every processor's queue extended by the same entries.\<close>

definition enqueue_all :: "directory_entry list \<Rightarrow> Processor list \<Rightarrow> Processor list" where
  "enqueue_all es procs = map (\<lambda>p. p\<lparr>queue := queue p @ es\<rparr>) procs"

text \<open>
  The entries that the walker reaches with its flag still set: the iterator's entries up to
  the first check that finds the flag cleared, or the first error.
\<close>

fun visited :: "(nat \<Rightarrow> bool) \<Rightarrow> nat \<Rightarrow> iter_item list \<Rightarrow> directory_entry list" where
  "visited reads k [] = []"
| "visited reads k (IterError # items) = []"
| "visited reads k (Entry e # items) =
     (if \<not> reads k then [] else e # visited reads (Suc k) items)"

section \<open>Basic facts\<close>

lemma Logger_debug_silent: "Logger_debug message tid = []"
  by (simp add: Logger_debug_def Logger_log_def logging_level_def)

lemma string_find_iff:
  "string_find s str \<noteq> None \<longleftrightarrow> (\<exists>pre post. s = pre @ str @ post)"
proof (induction s)
  case Nil
  then show ?case by auto
next
  case (Cons c cs)
  have "(\<exists>pre post. c # cs = pre @ str @ post) \<longleftrightarrow> sublist str (c # cs)"
    by (simp add: sublist_def)
  also have "\<dots> \<longleftrightarrow> prefix str (c # cs) \<or> sublist str cs"
    by (rule sublist_Cons_right)
  also have "\<dots> \<longleftrightarrow> prefix str (c # cs) \<or> string_find cs str \<noteq> None"
    using Cons.IH by (simp add: sublist_def)
  finally show ?case by auto
qed

lemma process_loop_foldl:
  "process_loop t tid q c = ([], foldl (\<lambda>c e. process_entry t tid e c) c q)"
  by (induction q arbitrary: c) simp_all

lemma process_pushes_filter:
  "process_pushes t tid q =
     map (\<lambda>e. \<lparr>entry = e, substring = t, id = tid\<rparr>)
       (filter (\<lambda>e. string_find (filename (path e)) t \<noteq> None) q)"
  by (induction q) simp_all

lemma foldl_process_entry:
  "foldl (\<lambda>c e. process_entry t tid e c) c q =
     foldl (\<lambda>c r. SearchResultContainer_push r c) c (process_pushes t tid q)"
  by (induction q arbitrary: c) (simp_all add: process_entry_def)

lemma store_emplace_size:
  "length (concat (map snd (store_emplace k v st))) = Suc (length (concat (map snd st)))"
  by (induction k v st rule: store_emplace.induct) simp_all

lemma store_emplace_neq: "store_emplace k v st \<noteq> st"
  using store_emplace_size [of k v st] by auto

lemma push_changes: "SearchResultContainer_push r c \<noteq> c"
proof
  assume "SearchResultContainer_push r c = c"
  then have "store (SearchResultContainer_push r c) = store c" by simp
  then show False by (simp add: SearchResultContainer_push_def store_emplace_neq)
qed

lemma keys_store_emplace:
  "set (map fst (store_emplace k v st)) = insert k (set (map fst st))"
  by (induction k v st rule: store_emplace.induct) auto

lemma distinct_store_emplace:
  "distinct (map fst st) \<Longrightarrow> distinct (map fst (store_emplace k v st))"
proof (induction k v st rule: store_emplace.induct)
  case (1 k v)
  then show ?case by simp
next
  case (2 k v k' vs st)
  then show ?case using keys_store_emplace [of k v st] by auto
qed

lemma map_of_store_emplace:
  "map_of (store_emplace k v st) k' =
     (if k' = k then Some ((case map_of st k of None \<Rightarrow> [] | Some vs \<Rightarrow> vs) @ [v])
      else map_of st k')"
  by (induction k v st rule: store_emplace.induct) auto

lemma push_all_queues:
  "push_all e procs =
     map (\<lambda>p. p\<lparr>queue := queue p @ (if is_directory e then [] else [e])\<rparr>) procs"
  by (induction procs) (simp_all add: Processor_push_def)

lemma format_store_append: "format_store (a @ b) = format_store a @ format_store b"
  by (induction a rule: format_store.induct) simp_all

lemma enqueue_all_Nil: "enqueue_all [] procs = procs"
  by (simp add: enqueue_all_def)

lemma enqueue_all_twice: "enqueue_all bs (enqueue_all as procs) = enqueue_all (as @ bs) procs"
  by (simp add: enqueue_all_def)

lemma push_all_enqueue: "push_all e procs = enqueue_all (not_dirs [e]) procs"
  by (simp add: push_all_queues enqueue_all_def not_dirs_def)

lemma list_paths_loop_completed:
  "\<forall>i. reads i \<Longrightarrow>
   list_paths_loop reads k (map Entry es) procs = (Returned 0, enqueue_all (not_dirs es) procs)"
proof (induction es arbitrary: k procs)
  case Nil
  then show ?case by (simp add: enqueue_all_Nil not_dirs_def)
next
  case (Cons e es)
  then show ?case
    by (simp add: push_all_enqueue enqueue_all_twice not_dirs_def)
qed

lemma list_paths_loop_stopped:
  "\<forall>i < length es. reads (k + i) \<Longrightarrow> \<not> reads (k + length es) \<Longrightarrow>
   list_paths_loop reads k (map Entry es @ Entry e # items) procs =
     (Returned 1, enqueue_all (not_dirs es) procs)"
proof (induction es arbitrary: k procs)
  case Nil
  then show ?case by (simp add: enqueue_all_Nil not_dirs_def)
next
  case (Cons a es)
  have r0: "reads k" using Cons.prems(1) by force
  have "\<forall>i < length es. reads (Suc k + i)"
    using Cons.prems(1) by force
  moreover have "\<not> reads (Suc k + length es)" using Cons.prems(2) by simp
  ultimately have "list_paths_loop reads (Suc k) (map Entry es @ Entry e # items) (push_all a procs)
      = (Returned 1, enqueue_all (not_dirs es) (push_all a procs))"
    by (rule Cons.IH)
  then show ?case using r0
    by (simp add: push_all_enqueue enqueue_all_twice not_dirs_def)
qed

lemma list_paths_loop_thrown:
  "\<forall>i < length es. reads (k + i) \<Longrightarrow>
   list_paths_loop reads k (map Entry es @ IterError # items) procs =
     (Thrown, enqueue_all (not_dirs es) procs)"
proof (induction es arbitrary: k procs)
  case Nil
  then show ?case by (simp add: enqueue_all_Nil not_dirs_def)
next
  case (Cons a es)
  have r0: "reads k" using Cons.prems(1) by force
  have "\<forall>i < length es. reads (Suc k + i)"
    using Cons.prems(1) by force
  then have "list_paths_loop reads (Suc k) (map Entry es @ IterError # items) (push_all a procs)
      = (Thrown, enqueue_all (not_dirs es) (push_all a procs))"
    by (rule Cons.IH)
  then show ?case using r0
    by (simp add: push_all_enqueue enqueue_all_twice not_dirs_def)
qed

lemma push_all_calls_replay:
  "foldl apply_push (pre @ procs) (push_all_calls e (length pre) (length procs)) =
     pre @ push_all e procs"
proof (induction procs arbitrary: pre)
  case Nil
  then show ?case by simp
next
  case (Cons p procs)
  have step: "foldl apply_push ((pre @ [q]) @ procs) (push_all_calls e (length (pre @ [q])) (length procs))
      = (pre @ [q]) @ push_all e procs" for q
    by (rule Cons.IH)
  show ?case
  proof (cases "is_directory e")
    case True
    then show ?thesis using step [of p] by simp
  next
    case False
    have "apply_push (pre @ p # procs) (length pre, e) = pre @ Processor_push e p # procs"
      by (simp add: apply_push_def list_update_append)
    then show ?thesis using False step [of "Processor_push e p"] by simp
  qed
qed

lemma push_all_replay:
  "foldl apply_push procs (push_all_calls e 0 (length procs)) = push_all e procs"
  using push_all_calls_replay [of "[]" procs e] by simp

lemma length_push_all: "length (push_all e procs) = length procs"
  by (induction procs) simp_all

lemma list_paths_replay:
  "snd (list_paths_loop reads k items procs) =
     foldl apply_push procs (list_paths_calls reads k items (length procs))"
proof (induction reads k items procs rule: list_paths_loop.induct)
  case (1 reads k procs)
  then show ?case by simp
next
  case (2 reads k items procs)
  then show ?case by simp
next
  case (3 reads k e items procs)
  then show ?case by (simp add: push_all_replay length_push_all)
qed

lemma push_all_calls_eq:
  "push_all_calls e i n = (if is_directory e then [] else map (\<lambda>j. (j, e)) [i..<i + n])"
proof (induction n arbitrary: i)
  case 0
  then show ?case by simp
next
  case (Suc n)
  then show ?case by (simp add: upt_conv_Cons)
qed

lemma list_paths_calls_completed:
  "\<forall>i. reads i \<Longrightarrow>
   list_paths_calls reads k (map Entry es) n =
     concat (map (\<lambda>e. map (\<lambda>j. (j, e)) [0..<n]) (not_dirs es))"
  by (induction es arbitrary: k) (simp_all add: push_all_calls_eq not_dirs_def)

lemma store_after_pushes:
  "distinct (map fst (store c)) \<Longrightarrow>
   distinct (map fst (store (foldl (\<lambda>c r. SearchResultContainer_push r c) c rs))) \<and>
   (\<forall>p. map_of (store (foldl (\<lambda>c r. SearchResultContainer_push r c) c rs)) p =
      (if values_for p rs = [] then map_of (store c) p
       else Some ((case map_of (store c) p of None \<Rightarrow> [] | Some vs \<Rightarrow> vs) @ values_for p rs)))"
proof (induction rs arbitrary: c)
  case Nil
  then show ?case by (simp add: values_for_def)
next
  case (Cons r rs)
  let ?c = "SearchResultContainer_push r c"
  have d: "distinct (map fst (store ?c))"
    using Cons.prems by (simp add: SearchResultContainer_push_def distinct_store_emplace)
  have m: "map_of (store ?c) p =
      (if p = path (entry r)
       then Some ((case map_of (store c) p of None \<Rightarrow> [] | Some vs \<Rightarrow> vs) @ [(substring r, id r)])
       else map_of (store c) p)" for p
    by (simp add: SearchResultContainer_push_def map_of_store_emplace)
  show ?case
    using Cons.IH [OF d] by (auto simp: m values_for_def split: option.splits)
qed

lemma list_paths_loop_visited:
  "snd (list_paths_loop reads k items procs) = enqueue_all (not_dirs (visited reads k items)) procs"
proof (induction reads k items procs rule: list_paths_loop.induct)
  case (1 reads k procs)
  then show ?case by (simp add: enqueue_all_Nil not_dirs_def)
next
  case (2 reads k items procs)
  then show ?case by (simp add: enqueue_all_Nil not_dirs_def)
next
  case (3 reads k e items procs)
  then show ?case
    by (simp add: push_all_enqueue enqueue_all_twice enqueue_all_Nil not_dirs_def)
qed

lemma push_all_calls_no_dir: "filter is_directory (map snd (push_all_calls e i n)) = []"
  by (induction n arbitrary: i) simp_all

lemma list_paths_calls_no_dir:
  "filter is_directory (map snd (list_paths_calls reads k items n)) = []"
  by (induction reads k items n rule: list_paths_calls.induct)
    (simp_all add: push_all_calls_no_dir)

lemma list_paths_calls_stopped:
  "\<forall>i < length es. reads (k + i) \<Longrightarrow> \<not> reads (k + length es) \<Longrightarrow>
   list_paths_calls reads k (map Entry es @ Entry e # items) n =
     concat (map (\<lambda>e. map (\<lambda>j. (j, e)) [0..<n]) (not_dirs es))"
proof (induction es arbitrary: k)
  case Nil
  then show ?case by (simp add: not_dirs_def)
next
  case (Cons a es)
  have r0: "reads k" using Cons.prems(1) by force
  have "\<forall>i < length es. reads (Suc k + i)"
    using Cons.prems(1) by force
  moreover have "\<not> reads (Suc k + length es)" using Cons.prems(2) by simp
  ultimately have "list_paths_calls reads (Suc k) (map Entry es @ Entry e # items) n =
     concat (map (\<lambda>e. map (\<lambda>j. (j, e)) [0..<n]) (not_dirs es))"
    by (rule Cons.IH)
  then show ?case using r0 by (simp add: push_all_calls_eq not_dirs_def)
qed

lemma map_of_split:
  "map_of st p = Some vs \<Longrightarrow> distinct (map fst st) \<Longrightarrow>
   \<exists>pre post. st = pre @ (p, vs) # post \<and> p \<notin> fst ` set pre \<and> p \<notin> fst ` set post"
proof (induction st)
  case Nil
  then show ?case by simp
next
  case (Cons kv st)
  obtain k ws where kv: "kv = (k, ws)" by (cases kv)
  show ?case
  proof (cases "k = p")
    case True
    then have ws: "ws = vs" using Cons.prems(1) kv by simp
    have "p \<notin> fst ` set st" using Cons.prems(2) kv True by simp
    then have "kv # st = [] @ (p, vs) # st \<and> p \<notin> fst ` set [] \<and> p \<notin> fst ` set st"
      using kv True ws by simp
    then show ?thesis by blast
  next
    case False
    then have "map_of st p = Some vs" using Cons.prems(1) kv by simp
    moreover have "distinct (map fst st)" using Cons.prems(2) by simp
    ultimately obtain pre post where pp: "st = pre @ (p, vs) # post"
      "p \<notin> fst ` set pre" "p \<notin> fst ` set post"
      using Cons.IH by blast
    have "kv # st = (kv # pre) @ (p, vs) # post \<and> p \<notin> fst ` set (kv # pre)
        \<and> p \<notin> fst ` set post"
      using pp kv False by simp
    then show ?thesis by blast
  qed
qed

lemma string_find_empty: "string_find s [] = Some 0"
  by (cases s) simp_all

section \<open>The filter worker\<close>

text \<open>
  Claim C4. A worker with target \<open>S\<close> that takes the entry \<open>e\<close> from its queue pushes
  the record (entry, \<open>S\<close>, its thread id) to the container exactly when the filename of
  \<open>e\<close> contains \<open>S\<close> as a contiguous substring (characters compared as they are), and
  such a push always changes the container; so the records a pass pushes are those of the
  queued entries whose filename contains \<open>S\<close>, and the container after the pass is the
  container before it with these records pushed. No call of \<^verbatim>\<open>proc.push\<close> made by the
  walker carries a directory, so directories never reach a worker's queue.
\<close>
theorem filter_worker_records_iff_substring:
  "process_entry S tid e c =
     (if \<exists>pre post. filename (path e) = pre @ S @ post
      then SearchResultContainer_push \<lparr>entry = e, substring = S, id = tid\<rparr> c else c)
   \<and> SearchResultContainer_push \<lparr>entry = e, substring = S, id = tid\<rparr> c \<noteq> c
   \<and> process_pushes S tid q =
       map (\<lambda>e. \<lparr>entry = e, substring = S, id = tid\<rparr>)
         (filter (\<lambda>e. \<exists>pre post. filename (path e) = pre @ S @ post) q)
   \<and> snd (Processor_process tid p c) =
       foldl (\<lambda>c r. SearchResultContainer_push r c) c (process_pushes (target p) tid (queue p))
   \<and> filter is_directory (map snd (list_paths_calls reads k items n)) = []"
proof -
  have a: "process_entry S tid e c =
     (if \<exists>pre post. filename (path e) = pre @ S @ post
      then SearchResultContainer_push \<lparr>entry = e, substring = S, id = tid\<rparr> c else c)"
    unfolding process_entry_def string_find_iff by (rule refl)
  have b: "process_pushes S tid q =
       map (\<lambda>e. \<lparr>entry = e, substring = S, id = tid\<rparr>)
         (filter (\<lambda>e. \<exists>pre post. filename (path e) = pre @ S @ post) q)"
    unfolding process_pushes_filter string_find_iff by (rule refl)
  have c: "snd (Processor_process tid p c) =
       foldl (\<lambda>c r. SearchResultContainer_push r c) c (process_pushes (target p) tid (queue p))"
    by (simp add: Processor_process_def process_loop_foldl foldl_process_entry)
  show ?thesis
    by (intro conjI) (rule a, rule push_changes, rule b, rule c, rule list_paths_calls_no_dir)
qed

text \<open>
  Claim C9. A drain pass handles every entry that is queued when it starts exactly once,
  front first, and leaves the queue empty (the queue mutex is held for the whole pass, so
  nothing is added meanwhile). The entries of the records it pushes are the matching
  entries in queue order: matches are recorded in the order the entries were dequeued.
\<close>
theorem drain_pass_fifo:
  "Processor_process tid p c =
     (p\<lparr>queue := []\<rparr>, foldl (\<lambda>c e. process_entry (target p) tid e c) c (queue p))
   \<and> map entry (process_pushes (target p) tid (queue p)) =
       filter (\<lambda>e. string_find (filename (path e)) (target p) \<noteq> None) (queue p)
   \<and> foldl (\<lambda>c e. process_entry (target p) tid e c) c (queue p) =
       foldl (\<lambda>c r. SearchResultContainer_push r c) c (process_pushes (target p) tid (queue p))"
proof -
  have "map entry (process_pushes t tid q) =
       filter (\<lambda>e. string_find (filename (path e)) t \<noteq> None) q" for t q
    by (induction q) simp_all
  then show ?thesis
    by (simp add: Processor_process_def process_loop_foldl foldl_process_entry)
qed

text \<open>
  Claim C10. The empty string is found in every filename, the empty one included, so a
  worker whose target is empty records every entry it dequeues.
\<close>
theorem empty_target_matches_every_entry:
  "string_find F [] = Some 0
   \<and> process_entry [] tid e c =
       SearchResultContainer_push \<lparr>entry = e, substring = [], id = tid\<rparr> c
   \<and> process_pushes [] tid q = map (\<lambda>e. \<lparr>entry = e, substring = [], id = tid\<rparr>) q"
  by (simp add: string_find_empty process_entry_def process_pushes_filter)

section \<open>The result container\<close>

text \<open>
  Claim C5. After a dump the store is empty, so a second dump with no push in between
  writes no snapshot text: all it writes is the logger's line \<^verbatim>\<open>dump start\<close>. A dump
  of an empty store leaves the container as it is, and the periodic loop, once the period
  has elapsed, still takes the new clock reading as its \<^verbatim>\<open>start\<close>.
\<close>
theorem flush_leaves_store_empty:
  "store (fst (SearchResultContainer_dump tid c)) = []
   \<and> snd (SearchResultContainer_dump tid' (fst (SearchResultContainer_dump tid c))) =
       Logger_info ''dump start'' tid'
   \<and> SearchResultContainer_dump tid (c\<lparr>store := []\<rparr>) =
       (c\<lparr>store := []\<rparr>, Logger_info ''dump start'' tid)
   \<and> (finish - start > ms * 1000000 \<longrightarrow>
        periodic_dump_pass tid ms start finish restart (c\<lparr>store := []\<rparr>) =
          (restart, c\<lparr>store := []\<rparr>, Logger_info ''dump start'' tid))"
  by (simp add: SearchResultContainer_dump_def periodic_dump_pass_def)

theorem flush_leaves_store_empty_witness:
  "(10000000001 - (0::int) > 10 * 1000000) \<and>
   periodic_dump_pass ''t1'' 10 0 10000000001 10000000002
       (\<lparr>store = [], container_should_continue = True\<rparr>) =
     (10000000002, \<lparr>store = [], container_should_continue = True\<rparr>,
      ''[INFO] dump start (t1)'' @ [CHR 0x0A])"
  using flush_leaves_store_empty [where tid = "''t1''" and tid' = "''t1''"
      and c = "\<lparr>store = [], container_should_continue = True\<rparr>"
      and finish = 10000000001 and start = 0 and ms = 10 and restart = 10000000002]
  by (simp add: Logger_info_def Logger_log_def logging_level_def)

text \<open>
  Claim C6. Starting from an empty store (the state a dump leaves), after any sequence
  \<open>rs\<close> of pushes (whatever threads they come from, the store mutex serialises them) the
  keys of the store are distinct, and a path \<open>p\<close> is a key exactly when some push was for
  \<open>p\<close>; its value is then the list of the (substring, thread id) pairs of all pushes for
  \<open>p\<close>, once per push, in arrival order. The next dump writes one block for \<open>p\<close>
  that lists exactly these pairs.
\<close>
theorem store_aggregates_matches_per_path:
  assumes "store c = []"
    and "c' = foldl (\<lambda>c r. SearchResultContainer_push r c) c rs"
  shows "distinct (map fst (store c'))
    \<and> map_of (store c') p = (if values_for p rs = [] then None else Some (values_for p rs))
    \<and> (values_for p rs \<noteq> [] \<longrightarrow>
        (\<exists>pre post. store c' = pre @ (p, values_for p rs) # post
           \<and> p \<notin> fst ` set pre \<and> p \<notin> fst ` set post
           \<and> snd (SearchResultContainer_dump tid c') =
               Logger_info ''dump start'' tid @ format_store pre @ quoted p @ [CHR 0x0A]
                 @ concat (map format_value (values_for p rs)) @ format_store post))"
proof -
  have d0: "distinct (map fst (store c))" using assms(1) by simp
  have d: "distinct (map fst (store c'))"
    using store_after_pushes [OF d0, of rs] assms(2) by simp
  have m: "map_of (store c') p = (if values_for p rs = [] then None else Some (values_for p rs))"
    using store_after_pushes [OF d0, of rs] assms by simp
  have "\<exists>pre post. store c' = pre @ (p, values_for p rs) # post
           \<and> p \<notin> fst ` set pre \<and> p \<notin> fst ` set post
           \<and> snd (SearchResultContainer_dump tid c') =
               Logger_info ''dump start'' tid @ format_store pre @ quoted p @ [CHR 0x0A]
                 @ concat (map format_value (values_for p rs)) @ format_store post"
    if ne: "values_for p rs \<noteq> []"
  proof -
    have "map_of (store c') p = Some (values_for p rs)" using m ne by simp
    then obtain pre post where pp: "store c' = pre @ (p, values_for p rs) # post"
      "p \<notin> fst ` set pre" "p \<notin> fst ` set post"
      using map_of_split [OF _ d] by blast
    have "format_store (store c') = format_store pre @ quoted p @ [CHR 0x0A]
                 @ concat (map format_value (values_for p rs)) @ format_store post"
      by (simp add: pp(1) format_store_append)
    then have "store c' = pre @ (p, values_for p rs) # post
           \<and> p \<notin> fst ` set pre \<and> p \<notin> fst ` set post
           \<and> snd (SearchResultContainer_dump tid c') =
               Logger_info ''dump start'' tid @ format_store pre @ quoted p @ [CHR 0x0A]
                 @ concat (map format_value (values_for p rs)) @ format_store post"
      using pp by (simp add: SearchResultContainer_dump_def)
    then show ?thesis by blast
  qed
  then show ?thesis using d m by blast
qed

theorem store_aggregates_matches_per_path_witness:
  "store \<lparr>store = [], container_should_continue = True\<rparr> = []
   \<and> values_for ''/r/ab.txt''
        [\<lparr>entry = \<lparr>path = ''/r/ab.txt'', is_directory = False\<rparr>, substring = ''a'', id = ''t1''\<rparr>,
         \<lparr>entry = \<lparr>path = ''/r/b.txt'', is_directory = False\<rparr>, substring = ''b'', id = ''t2''\<rparr>,
         \<lparr>entry = \<lparr>path = ''/r/ab.txt'', is_directory = False\<rparr>, substring = ''b'', id = ''t2''\<rparr>]
       = [(''a'', ''t1''), (''b'', ''t2'')]
   \<and> map_of (store (foldl (\<lambda>c r. SearchResultContainer_push r c)
        \<lparr>store = [], container_should_continue = True\<rparr>
        [\<lparr>entry = \<lparr>path = ''/r/ab.txt'', is_directory = False\<rparr>, substring = ''a'', id = ''t1''\<rparr>,
         \<lparr>entry = \<lparr>path = ''/r/b.txt'', is_directory = False\<rparr>, substring = ''b'', id = ''t2''\<rparr>,
         \<lparr>entry = \<lparr>path = ''/r/ab.txt'', is_directory = False\<rparr>, substring = ''b'', id = ''t2''\<rparr>]))
        ''/r/ab.txt''
       = Some [(''a'', ''t1''), (''b'', ''t2'')]"
  using store_aggregates_matches_per_path [where c = "\<lparr>store = [], container_should_continue = True\<rparr>"
      and rs = "[\<lparr>entry = \<lparr>path = ''/r/ab.txt'', is_directory = False\<rparr>, substring = ''a'', id = ''t1''\<rparr>,
         \<lparr>entry = \<lparr>path = ''/r/b.txt'', is_directory = False\<rparr>, substring = ''b'', id = ''t2''\<rparr>,
         \<lparr>entry = \<lparr>path = ''/r/ab.txt'', is_directory = False\<rparr>, substring = ''b'', id = ''t2''\<rparr>]"
      and p = "''/r/ab.txt''" and tid = "''t0''", OF _ refl]
  by (simp add: values_for_def)

section \<open>The walker\<close>

text \<open>
  Claim C7. When the flag stays set and the iterator delivers the entries \<open>es\<close>, the walk
  returns 0 and every processor's queue has received the entries of \<open>es\<close> that are not
  directories, in order. The calls of \<^verbatim>\<open>proc.push\<close> are made entry by entry, and for one
  entry in the order of the processors in the vector, before the next entry is looked at;
  replaying the calls gives the processors the walk leaves. In every run the queues grow by
  the non-directories among the entries the walker reached, and by nothing else.
\<close>
theorem walker_fans_out_every_non_directory:
  "PathFinder_list_paths (\<lambda>k. True) (map Entry es) procs =
     (Returned 0, map (\<lambda>p. p\<lparr>queue := queue p @ filter (\<lambda>e. \<not> is_directory e) es\<rparr>) procs)
   \<and> list_paths_calls (\<lambda>k. True) 0 (map Entry es) (length procs) =
       concat (map (\<lambda>e. map (\<lambda>j. (j, e)) [0..<length procs]) (filter (\<lambda>e. \<not> is_directory e) es))
   \<and> snd (PathFinder_list_paths reads items procs) =
       foldl apply_push procs (list_paths_calls reads 0 items (length procs))
   \<and> snd (PathFinder_list_paths reads items procs) =
       map (\<lambda>p. p\<lparr>queue := queue p @ filter (\<lambda>e. \<not> is_directory e) (visited reads 0 items)\<rparr>) procs"
proof -
  have a: "PathFinder_list_paths (\<lambda>k. True) (map Entry es) procs =
     (Returned 0, map (\<lambda>p. p\<lparr>queue := queue p @ filter (\<lambda>e. \<not> is_directory e) es\<rparr>) procs)"
    using list_paths_loop_completed [of "\<lambda>k. True" 0 es procs]
    by (simp add: PathFinder_list_paths_def enqueue_all_def not_dirs_def)
  have b: "list_paths_calls (\<lambda>k. True) 0 (map Entry es) (length procs) =
       concat (map (\<lambda>e. map (\<lambda>j. (j, e)) [0..<length procs]) (filter (\<lambda>e. \<not> is_directory e) es))"
    using list_paths_calls_completed [of "\<lambda>k. True" 0 es "length procs"]
    by (simp add: not_dirs_def)
  have c: "snd (PathFinder_list_paths reads items procs) =
       foldl apply_push procs (list_paths_calls reads 0 items (length procs))"
    unfolding PathFinder_list_paths_def by (rule list_paths_replay)
  have d: "snd (PathFinder_list_paths reads items procs) =
       map (\<lambda>p. p\<lparr>queue := queue p @ filter (\<lambda>e. \<not> is_directory e) (visited reads 0 items)\<rparr>) procs"
    using list_paths_loop_visited [of reads 0 items procs]
    by (simp add: PathFinder_list_paths_def enqueue_all_def not_dirs_def)
  show ?thesis
    by (intro conjI) (rule a, rule b, rule c, rule d)
qed

text \<open>
  Claim C8. The flag is checked before each entry is handed out. If the checks before the
  entries \<open>es\<close> find it set and the next check finds it cleared, the walk returns 1 at
  once: the queues have received the non-directories of \<open>es\<close> only, and the calls made
  are those of a walk over \<open>es\<close> alone. A walk whose flag stays set returns 0, a
  different value.
\<close>
theorem walker_stops_at_cleared_flag:
  assumes "\<forall>i < length es. reads i"
    and "\<not> reads (length es)"
  shows "PathFinder_list_paths reads (map Entry es @ Entry e # items) procs =
      (Returned 1, map (\<lambda>p. p\<lparr>queue := queue p @ filter (\<lambda>e. \<not> is_directory e) es\<rparr>) procs)
    \<and> list_paths_calls reads 0 (map Entry es @ Entry e # items) (length procs) =
        list_paths_calls (\<lambda>k. True) 0 (map Entry es) (length procs)
    \<and> fst (PathFinder_list_paths (\<lambda>k. True) (map Entry (es @ e # es')) procs) = Returned 0
    \<and> Returned 1 \<noteq> Returned 0"
proof -
  have r: "\<forall>i < length es. reads (0 + i)" using assms(1) by simp
  have n: "\<not> reads (0 + length es)" using assms(2) by simp
  have a: "PathFinder_list_paths reads (map Entry es @ Entry e # items) procs =
      (Returned 1, map (\<lambda>p. p\<lparr>queue := queue p @ filter (\<lambda>e. \<not> is_directory e) es\<rparr>) procs)"
    using list_paths_loop_stopped [OF r n, of e items procs]
    by (simp add: PathFinder_list_paths_def enqueue_all_def not_dirs_def)
  have b: "list_paths_calls reads 0 (map Entry es @ Entry e # items) (length procs) =
        list_paths_calls (\<lambda>k. True) 0 (map Entry es) (length procs)"
    using list_paths_calls_stopped [OF r n, of e items "length procs"]
      list_paths_calls_completed [of "\<lambda>k. True" 0 es "length procs"]
    by simp
  have c: "fst (PathFinder_list_paths (\<lambda>k. True) (map Entry (es @ e # es')) procs) = Returned 0"
    using list_paths_loop_completed [of "\<lambda>k. True" 0 "es @ e # es'" procs]
    by (simp add: PathFinder_list_paths_def)
  have d: "Returned 1 \<noteq> Returned 0" by simp
  show ?thesis
    by (intro conjI) (rule a, rule b, rule c, rule d)
qed

theorem walker_stops_at_cleared_flag_witness:
  "(\<lambda>k. k < Suc 0) 0 \<and> \<not> (\<lambda>k. k < Suc 0) (Suc 0)
   \<and> PathFinder_list_paths (\<lambda>k. k < Suc 0)
        [Entry \<lparr>path = ''/r/a.txt'', is_directory = False\<rparr>,
         Entry \<lparr>path = ''/r/b.txt'', is_directory = False\<rparr>,
         Entry \<lparr>path = ''/r/c.txt'', is_directory = False\<rparr>]
        [\<lparr>target = ''a'', queue = [], processor_should_continue = True\<rparr>] =
      (Returned 1,
       [\<lparr>target = ''a'', queue = [\<lparr>path = ''/r/a.txt'', is_directory = False\<rparr>],
          processor_should_continue = True\<rparr>])"
  using walker_stops_at_cleared_flag [where reads = "\<lambda>k. k < Suc 0"
      and es = "[\<lparr>path = ''/r/a.txt'', is_directory = False\<rparr>]"
      and e = "\<lparr>path = ''/r/b.txt'', is_directory = False\<rparr>"
      and items = "[Entry \<lparr>path = ''/r/c.txt'', is_directory = False\<rparr>]"
      and procs = "[\<lparr>target = ''a'', queue = [], processor_should_continue = True\<rparr>]"
      and es' = "[]"]
  by simp

section \<open>The store mutex during a dump\<close>

lemma push_ops_run:
  assumes "store_mutex g = None"
  shows "run_ops tid (push_ops r) (ss, g) =
      Some (ss, g\<lparr>guarded := SearchResultContainer_push r (guarded g)\<rparr>)"
  using assms by (simp add: push_ops_def Logger_debug_silent)

lemma dump_ops_run:
  assumes "store_mutex g = None"
  shows "run_ops tid dump_ops ([], g) =
      Some (format_store (store (guarded g)),
            g\<lparr>guarded := fst (SearchResultContainer_dump tid (guarded g)),
              out := out g @ snd (SearchResultContainer_dump tid (guarded g))\<rparr>)"
  using assms by (simp add: dump_ops_def SearchResultContainer_dump_def)

lemma dump_ops_trace:
  assumes "store_mutex g = None"
  shows "mutex_trace tid dump_ops ([], g) =
      [Some tid, Some tid, Some tid, Some tid, Some tid, Some tid, None]"
  using assms by (simp add: dump_ops_def)

lemma dump_ops_prefix_blocks:
  assumes "store_mutex g = None" and "1 \<le> n" and "n \<le> 6"
  shows "\<exists>ss g'. run_ops tid (take n dump_ops) ([], g) = Some (ss, g')
      \<and> store_mutex g' = Some tid
      \<and> run_ops tid' (push_ops r) (ss', g') = None"
proof -
  have "n = 1 \<or> n = 2 \<or> n = 3 \<or> n = 4 \<or> n = 5 \<or> n = 6"
    using assms(2,3) by arith
  then show ?thesis
    using assms(1)
    by (elim disjE) (simp_all add: dump_ops_def push_ops_def)
qed

lemma dump_ops_write_inside:
  assumes "store_mutex g = None"
  shows "\<exists>ss g'. run_ops tid (take 4 dump_ops) ([], g) = Some (ss, g')
      \<and> store_mutex g' = Some tid
      \<and> op_step tid (dump_ops ! 4) (ss, g') =
          Some (ss, g'\<lparr>out := out g' @ format_store (store (guarded g))\<rparr>)"
  using assms by (simp add: dump_ops_def)

text \<open>
  Claim C2, as the code has it. \<^verbatim>\<open>dump\<close> takes the store mutex in its first statement
  and releases it when it returns: run by a thread \<open>tid\<close> on a free mutex, its statements
  have the effect of \<open>SearchResultContainer_dump\<close>, and \<open>tid\<close> owns the mutex after every
  statement but the last. The fifth statement, the write of the snapshot to
  \<^verbatim>\<open>std::cout\<close>, runs with the mutex held, and from the first statement to the sixth a
  \<^verbatim>\<open>push\<close> of another thread cannot get past its own lock: a concurrent \<^verbatim>\<open>push\<close> waits
  until the snapshot has been formatted, written and flushed.
\<close>
theorem dump_holds_store_mutex_while_writing:
  assumes "store_mutex g = None"
  shows "run_ops tid dump_ops ([], g) =
      Some (format_store (store (guarded g)),
            g\<lparr>guarded := fst (SearchResultContainer_dump tid (guarded g)),
              out := out g @ snd (SearchResultContainer_dump tid (guarded g))\<rparr>)
    \<and> mutex_trace tid dump_ops ([], g) =
        [Some tid, Some tid, Some tid, Some tid, Some tid, Some tid, None]
    \<and> dump_ops ! 4 = Write
    \<and> (\<exists>ss g'. run_ops tid (take 4 dump_ops) ([], g) = Some (ss, g')
          \<and> store_mutex g' = Some tid
          \<and> op_step tid (dump_ops ! 4) (ss, g') =
              Some (ss, g'\<lparr>out := out g' @ format_store (store (guarded g))\<rparr>))
    \<and> (\<forall>n. 1 \<le> n \<and> n \<le> 6 \<longrightarrow>
          (\<exists>ss g'. run_ops tid (take n dump_ops) ([], g) = Some (ss, g')
             \<and> store_mutex g' = Some tid
             \<and> run_ops tid' (push_ops r) (ss', g') = None))"
proof -
  have w: "dump_ops ! 4 = Write" by (simp add: dump_ops_def)
  show ?thesis
    using dump_ops_run [OF assms] dump_ops_trace [OF assms] w dump_ops_write_inside [OF assms]
      dump_ops_prefix_blocks [OF assms]
    by blast
qed

theorem dump_holds_store_mutex_while_writing_witness:
  "store_mutex example_guarded = None
   \<and> mutex_trace ''t0'' dump_ops ([], example_guarded) =
       [Some ''t0'', Some ''t0'', Some ''t0'', Some ''t0'', Some ''t0'', Some ''t0'', None]"
proof -
  have m: "store_mutex example_guarded = None" by (simp add: example_guarded_def)
  show ?thesis
    using m dump_holds_store_mutex_while_writing [OF m, of "''t0''"] by simp
qed

text \<open>
  The claim as stated (the snapshot is written after the mutex is released) fails: with one
  hit in the store, after the first five statements of \<^verbatim>\<open>dump\<close> the snapshot is in the
  output, thread \<open>t0\<close> still owns the mutex, and a \<^verbatim>\<open>push\<close> by \<open>t2\<close> is blocked.
\<close>
theorem dump_writes_snapshot_under_lock:
  "run_ops ''t0'' [Lock, LogInfo ''dump start'', Format, Clear, Write] ([], example_guarded) =
     Some (format_store (store (guarded example_guarded)),
           example_guarded
             \<lparr>guarded := (guarded example_guarded)\<lparr>store := []\<rparr>,
              store_mutex := Some ''t0'',
              out := Logger_info ''dump start'' ''t0'' @ format_store (store (guarded example_guarded))\<rparr>)
   \<and> take 5 dump_ops = [Lock, LogInfo ''dump start'', Format, Clear, Write]
   \<and> format_store (store (guarded example_guarded)) \<noteq> []
   \<and> run_ops ''t2'' (push_ops \<lparr>entry = file_b, substring = ''a'', id = ''t2''\<rparr>)
        ([], example_guarded
             \<lparr>guarded := (guarded example_guarded)\<lparr>store := []\<rparr>,
              store_mutex := Some ''t0'',
              out := Logger_info ''dump start'' ''t0'' @ format_store (store (guarded example_guarded))\<rparr>)
       = None"
  by (simp add: example_guarded_def dump_ops_def push_ops_def quoted_def)

section \<open>The search thread and \<^verbatim>\<open>list_paths\<close>\<close>

text \<open>
  Left to run with its flag set, the search thread ends with the outcome of
  \<open>list_paths_loop\<close> and leaves the processors that function computes.
\<close>

lemma search_thread_finished:
  "search_thread s = W_done r \<Longrightarrow> exec (replicate n (Run WalkerU)) s = s"
  by (induction n) (simp_all add: search_step_def)

lemma search_thread_runs_list_paths:
  assumes "search_thread s = W_loop items" and "path_finder_should_continue s"
  shows "search_thread (exec (replicate (Suc (length items)) (Run WalkerU)) s) =
      W_done (fst (list_paths_loop (\<lambda>k. True) k items (processors s)))
    \<and> processors (exec (replicate (Suc (length items)) (Run WalkerU)) s) =
      snd (list_paths_loop (\<lambda>k. True) k items (processors s))"
  using assms
proof (induction items arbitrary: s k)
  case Nil
  then show ?case by (simp add: search_step_def)
next
  case (Cons item items)
  show ?case
  proof (cases item)
    case IterError
    have "search_thread (search_step s) = W_done Thrown" "processors (search_step s) = processors s"
      using Cons.prems IterError by (simp_all add: search_step_def)
    then show ?thesis
      using IterError search_thread_finished [of "search_step s" Thrown "Suc (length items)"]
      by simp
  next
    case (Entry e)
    let ?s = "search_step s"
    have st: "search_thread ?s = W_loop items" "path_finder_should_continue ?s"
      "processors ?s = push_all e (processors s)"
      using Cons.prems Entry by (simp_all add: search_step_def)
    show ?thesis
      using Cons.IH [OF st(1) st(2), of "Suc k"] Entry st(3) by simp
  qed
qed

section \<open>Shutdown\<close>

text \<open>Threads that have ended stay so, and only the main thread moves through the joins.\<close>

lemma joined_mono:
  assumes "joined pc s"
    and "walker_terminated s \<Longrightarrow> walker_terminated s'"
    and "length (processor_threads s') = length (processor_threads s)"
    and "\<And>j. j < length (processor_threads s) \<Longrightarrow> processor_threads s ! j = P_done
            \<Longrightarrow> processor_threads s' ! j = P_done"
    and "flusher_terminated s \<Longrightarrow> flusher_terminated s'"
  shows "joined pc s'"
proof -
  have tk: "list_all (\<lambda>pc. pc = P_done) (take i (processor_threads s'))"
    if "list_all (\<lambda>pc. pc = P_done) (take i (processor_threads s))" for i
    using that assms(3,4) by (auto simp: list_all_length)
  have al: "processors_terminated s'" if "processors_terminated s"
    using that assms(3,4) by (auto simp: processors_terminated_def list_all_length)
  show ?thesis
    using assms(1,2,5) tk al by (cases pc) auto
qed

lemma search_step_facts:
  "main_thread (search_step s) = main_thread s"
  "processor_threads (search_step s) = processor_threads s"
  "dump_thread (search_step s) = dump_thread s"
  "walker_terminated s \<Longrightarrow> walker_terminated (search_step s)"
  by (auto simp: search_step_def walker_terminated_def
      split: walker_pc.splits list.splits iter_item.splits)

lemma processor_step_facts:
  "main_thread (processor_step i s) = main_thread s"
  "search_thread (processor_step i s) = search_thread s"
  "dump_thread (processor_step i s) = dump_thread s"
  "length (processor_threads (processor_step i s)) = length (processor_threads s)"
  "processor_threads s ! j = P_done \<Longrightarrow> processor_threads (processor_step i s) ! j = P_done"
  by (auto simp: processor_step_def nth_list_update split: worker_pc.splits prod.splits)

lemma dump_step_facts:
  "main_thread (dump_step s) = main_thread s"
  "search_thread (dump_step s) = search_thread s"
  "processor_threads (dump_step s) = processor_threads s"
  "dump_thread s = F_done \<Longrightarrow> dump_thread (dump_step s) = F_done"
  by (auto simp: dump_step_def split: flusher_pc.splits prod.splits)

lemma run_command_facts:
  "main_thread (run_command c s) = main_thread s"
  "search_thread (run_command c s) = search_thread s"
  "processor_threads (run_command c s) = processor_threads s"
  "dump_thread (run_command c s) = dump_thread s"
  "ui_thread (run_command c s) = ui_thread s"
  by (auto simp: run_command_def stop_func_def dump_by_def split: prod.splits)

lemma ui_step_facts:
  "main_thread (ui_step s) = main_thread s"
  "search_thread (ui_step s) = search_thread s"
  "processor_threads (ui_step s) = processor_threads s"
  "dump_thread (ui_step s) = dump_thread s"
  by (auto simp: ui_step_def run_command_facts split: reader_pc.splits list.splits)

lemma main_step_facts:
  "search_thread (main_step s) = search_thread s"
  "processor_threads (main_step s) = processor_threads s"
  "dump_thread (main_step s) = dump_thread s"
  by (auto simp: main_step_def stop_func_def dump_by_def
      split: main_pc.splits walker_pc.splits prod.splits)

lemma joined_same_threads:
  assumes "joined pc s"
    and "search_thread s' = search_thread s"
    and "processor_threads s' = processor_threads s"
    and "dump_thread s' = dump_thread s"
  shows "joined pc s'"
  using assms(1)
  by (rule joined_mono)
    (simp_all add: assms(2,3,4) walker_terminated_def flusher_terminated_def)

lemma joined_main_step:
  assumes "joined (main_thread s) s"
  shows "joined (main_thread (main_step s)) (main_step s)"
proof -
  have same: "joined pc (main_step s)" if "joined pc s" for pc
    using that by (rule joined_same_threads) (simp_all add: main_step_facts)
  show ?thesis
  proof (cases "main_thread s")
    case M_barrier
    then show ?thesis by (simp add: main_step_def)
  next
    case M_wait_search
    then show ?thesis by (simp add: main_step_def)
  next
    case M_wait_drain
    then show ?thesis by (simp add: main_step_def)
  next
    case M_final_dump
    then show ?thesis by (simp add: main_step_def)
  next
    case M_stop
    then show ?thesis by (simp add: main_step_def)
  next
    case M_join_search
    show ?thesis
    proof (cases "search_thread s")
      case (W_done r)
      then have pc: "main_thread (main_step s) = M_join_processors 0"
        using M_join_search by (simp add: main_step_def)
      have jn: "joined (M_join_processors 0) s"
        using W_done by (simp add: walker_terminated_def)
      show ?thesis unfolding pc by (rule same [OF jn])
    next
      case (W_start items)
      then have "main_step s = s" using M_join_search by (simp add: main_step_def)
      then show ?thesis using assms by simp
    next
      case (W_loop items)
      then have "main_step s = s" using M_join_search by (simp add: main_step_def)
      then show ?thesis using assms by simp
    qed
  next
    case (M_join_processors i)
    have j: "walker_terminated s" "list_all (\<lambda>pc. pc = P_done) (take i (processor_threads s))"
      using assms M_join_processors by simp_all
    show ?thesis
    proof (cases "i < length (processor_threads s)")
      case True
      show ?thesis
      proof (cases "processor_threads s ! i = P_done")
        case pdone: True
        have pc: "main_thread (main_step s) = M_join_processors (Suc i)"
          using M_join_processors True pdone by (simp add: main_step_def)
        have jn: "joined (M_join_processors (Suc i)) s"
          using j True pdone by (simp add: take_Suc_conv_app_nth)
        show ?thesis unfolding pc by (rule same [OF jn])
      next
        case False
        then have "main_step s = s" using M_join_processors True by (simp add: main_step_def)
        then show ?thesis using assms by simp
      qed
    next
      case False
      then have pc: "main_thread (main_step s) = M_join_dump"
        using M_join_processors by (simp add: main_step_def)
      have jn: "joined M_join_dump s"
        using j False by (simp add: processors_terminated_def)
      show ?thesis unfolding pc by (rule same [OF jn])
    qed
  next
    case M_join_dump
    have j: "walker_terminated s" "processors_terminated s"
      using assms M_join_dump by simp_all
    show ?thesis
    proof (cases "dump_thread s = F_done")
      case True
      then have pc: "main_thread (main_step s) = M_detach_ui"
        using M_join_dump by (simp add: main_step_def)
      have jn: "joined M_detach_ui s"
        using j True by (simp add: flusher_terminated_def)
      show ?thesis unfolding pc by (rule same [OF jn])
    next
      case False
      then have "main_step s = s" using M_join_dump by (simp add: main_step_def)
      then show ?thesis using assms by simp
    qed
  next
    case M_detach_ui
    then have pc: "main_thread (main_step s) = M_returned EXIT_SUCCESS"
      by (simp add: main_step_def)
    have jn: "joined (M_returned EXIT_SUCCESS) s"
      using assms M_detach_ui by simp
    show ?thesis unfolding pc by (rule same [OF jn])
  next
    case (M_returned r)
    then have "main_step s = s" by (simp add: main_step_def)
    then show ?thesis using assms by simp
  qed
qed

lemma joined_step:
  assumes "joined (main_thread s) s"
  shows "joined (main_thread (step ev s)) (step ev s)"
proof (cases ev)
  case (Tick d)
  have "joined (main_thread s) (step ev s)"
    using assms by (rule joined_same_threads) (simp_all add: Tick)
  then show ?thesis by (simp add: Tick)
next
  case (Run u)
  show ?thesis
  proof (cases u)
    case WalkerU
    have "joined (main_thread s) (search_step s)"
      using assms by (rule joined_mono)
        (simp_all add: search_step_facts flusher_terminated_def)
    then show ?thesis by (simp add: Run WalkerU search_step_facts)
  next
    case (WorkerU i)
    have "joined (main_thread s) (processor_step i s)"
      using assms by (rule joined_mono)
        (simp_all add: processor_step_facts flusher_terminated_def walker_terminated_def)
    then show ?thesis by (simp add: Run WorkerU processor_step_facts)
  next
    case FlusherU
    have "joined (main_thread s) (dump_step s)"
      using assms by (rule joined_mono)
        (simp_all add: dump_step_facts flusher_terminated_def walker_terminated_def)
    then show ?thesis by (simp add: Run FlusherU dump_step_facts)
  next
    case ReaderU
    have "joined (main_thread s) (ui_step s)"
      using assms by (rule joined_same_threads) (simp_all add: ui_step_facts)
    then show ?thesis by (simp add: Run ReaderU ui_step_facts)
  next
    case MainU
    then show ?thesis using assms joined_main_step by (simp add: Run)
  qed
qed

lemma joined_exec:
  "joined (main_thread s) s \<Longrightarrow> joined (main_thread (exec evs s)) (exec evs s)"
proof (induction evs arbitrary: s)
  case Nil
  then show ?case by simp
next
  case (Cons ev evs)
  then show ?case by (simp add: joined_step)
qed

lemma main_step_result:
  assumes "main_thread (main_step s) = M_returned r"
  shows "r = EXIT_SUCCESS \<or> main_thread s = M_returned r"
  using assms
  by (cases "main_thread s")
    (auto simp: main_step_def split: if_splits walker_pc.splits)

lemma step_result:
  assumes "main_thread (step ev s) = M_returned r"
  shows "r = EXIT_SUCCESS \<or> main_thread s = M_returned r"
proof (cases ev)
  case (Tick d)
  then show ?thesis using assms by simp
next
  case (Run u)
  then show ?thesis
    using assms main_step_result [of s r]
    by (cases u)
      (simp_all add: search_step_facts processor_step_facts dump_step_facts ui_step_facts)
qed

lemma exec_result:
  "main_thread (exec evs s) = M_returned r \<Longrightarrow> r = EXIT_SUCCESS \<or> main_thread s = M_returned r"
proof (induction evs arbitrary: s)
  case Nil
  then show ?case by simp
next
  case (Cons ev evs)
  then have "r = EXIT_SUCCESS \<or> main_thread (step ev s) = M_returned r" by simp
  then show ?case using step_result [of ev s r] by blast
qed

lemmas run_defs =
  do_main_start_def search_step_def processor_step_def dump_step_def ui_step_def
  main_step_def run_command_def stop_func_def dump_by_def SearchResultContainer_dump_def
  Processor_process_def process_entry_def filename_def SearchResultContainer_push_def
  Processor_push_def queue_size_def periodic_dump_pass_def dump_period_def
  example_settings_def example_ids_def file_a_def file_b_def completing_schedule_def
  stopping_schedule_def do_main_result_def walker_terminated_def processors_terminated_def
  flusher_terminated_def reader_terminated_def


text \<open>
  Claim C1, as the code has it. In every run, whatever the schedule, the directory
  contents and the input: once \<^verbatim>\<open>do_main\<close> has returned, the search thread, every
  processor thread and the dump thread have ended (lines 396 to 400 join them). The thread
  reading commands is detached (line 401), not joined.
\<close>
theorem shutdown_joins_all_but_the_reader:
  assumes "do_main_result (exec evs (do_main_start settings items lines eof now ids)) = Some r"
  shows "walker_terminated (exec evs (do_main_start settings items lines eof now ids))
    \<and> processors_terminated (exec evs (do_main_start settings items lines eof now ids))
    \<and> flusher_terminated (exec evs (do_main_start settings items lines eof now ids))"
proof -
  let ?s0 = "do_main_start settings items lines eof now ids"
  have "joined (main_thread ?s0) ?s0" by (simp add: do_main_start_def)
  then have j: "joined (main_thread (exec evs ?s0)) (exec evs ?s0)" by (rule joined_exec)
  have "main_thread (exec evs ?s0) = M_returned r"
    using assms by (simp add: do_main_result_def split: main_pc.splits)
  then show ?thesis using j by simp
qed

theorem shutdown_joins_all_but_the_reader_witness:
  "do_main_result (exec completing_schedule
       (do_main_start example_settings [Entry file_a] [] False 0 example_ids)) = Some 0
   \<and> walker_terminated (exec completing_schedule
       (do_main_start example_settings [Entry file_a] [] False 0 example_ids))
   \<and> processors_terminated (exec completing_schedule
       (do_main_start example_settings [Entry file_a] [] False 0 example_ids))
   \<and> flusher_terminated (exec completing_schedule
       (do_main_start example_settings [Entry file_a] [] False 0 example_ids))"
proof -
  have r: "do_main_result (exec completing_schedule
       (do_main_start example_settings [Entry file_a] [] False 0 example_ids)) = Some 0"
    by (simp add: run_defs EXIT_SUCCESS_def)
  show ?thesis
    using r shutdown_joins_all_but_the_reader [OF r] by simp
qed

text \<open>
  The claim as stated (the command reader too has ended) fails: when nothing is typed the
  reader sits in \<^verbatim>\<open>std::getline\<close> while \<^verbatim>\<open>do_main\<close> returns.
\<close>
theorem shutdown_returns_while_reader_runs:
  "do_main_result (exec completing_schedule
       (do_main_start example_settings [Entry file_a] [] False 0 example_ids)) = Some EXIT_SUCCESS
   \<and> ui_thread (exec completing_schedule
       (do_main_start example_settings [Entry file_a] [] False 0 example_ids)) = R_getline
   \<and> \<not> reader_terminated (exec completing_schedule
       (do_main_start example_settings [Entry file_a] [] False 0 example_ids))"
  by (simp add: run_defs EXIT_SUCCESS_def)


section \<open>Exit status\<close>

text \<open>
  Claim C3, as the code has it. Whenever \<^verbatim>\<open>do_main\<close> returns it returns
  \<^verbatim>\<open>EXIT_SUCCESS\<close>, whatever the schedule and however the walk ended: the outcome of
  \<^verbatim>\<open>list_paths\<close> stays in the future of the packaged task, which is only waited for.
\<close>
theorem do_main_always_returns_success:
  assumes "do_main_result (exec evs (do_main_start settings items lines eof now ids)) = Some r"
  shows "r = EXIT_SUCCESS"
proof -
  let ?s0 = "do_main_start settings items lines eof now ids"
  have "main_thread (exec evs ?s0) = M_returned r"
    using assms by (simp add: do_main_result_def split: main_pc.splits)
  then have "r = EXIT_SUCCESS \<or> main_thread ?s0 = M_returned r" by (rule exec_result)
  then show ?thesis by (simp add: do_main_start_def)
qed

theorem do_main_always_returns_success_witness:
  "do_main_result (exec completing_schedule
       (do_main_start example_settings [Entry file_a, IterError] [] False 0 example_ids)) = Some 0
   \<and> (0::int) = EXIT_SUCCESS"
proof -
  have r: "do_main_result (exec completing_schedule
       (do_main_start example_settings [Entry file_a, IterError] [] False 0 example_ids)) = Some 0"
    by (simp add: run_defs EXIT_SUCCESS_def)
  show ?thesis
    using r do_main_always_returns_success [OF r] by simp
qed

text \<open>
  The claim as stated (failure when the walk was aborted) fails: a walk ended by an
  exception of the iterator, and a walk stopped early by the command \<^verbatim>\<open>end\<close>
  (\<^verbatim>\<open>list_paths\<close> returns 1), both end in \<^verbatim>\<open>EXIT_SUCCESS\<close>.
\<close>
theorem aborted_walk_exits_with_success:
  "search_thread (exec completing_schedule
       (do_main_start example_settings [Entry file_a, IterError] [] False 0 example_ids))
     = W_done Thrown
   \<and> do_main_result (exec completing_schedule
       (do_main_start example_settings [Entry file_a, IterError] [] False 0 example_ids))
     = Some EXIT_SUCCESS
   \<and> search_thread (exec stopping_schedule
       (do_main_start example_settings [Entry file_a, Entry file_b] [''end''] False 0 example_ids))
     = W_done (Returned 1)
   \<and> do_main_result (exec stopping_schedule
       (do_main_start example_settings [Entry file_a, Entry file_b] [''end''] False 0 example_ids))
     = Some EXIT_SUCCESS
   \<and> EXIT_SUCCESS \<noteq> EXIT_FAILURE"
  by (simp add: run_defs EXIT_SUCCESS_def EXIT_FAILURE_def)

end
